theory Spec2Isabelle
  imports Complex_Main "HOL-Library.Multiset"
begin

section \<open>Texts and the string builtins the analyzer relies on\<close>

text \<open>
  A Python \<open>str\<close> is a sequence of Unicode code points. This development covers the
  code points U+0000 to U+00FF (Basic Latin and the Latin-1 Supplement, which holds the
  accented letters of French): a character is a HOL \<^typ>\<open>char\<close>, whose value
  \<^term>\<open>of_char c :: nat\<close> is the code point, and a text is a \<^typ>\<open>string\<close>, so
  that \<^const>\<open>length\<close> counts code points as \<open>len\<close> does. On this range the
  builtins \<open>str.isalpha\<close>, \<open>str.isspace\<close> and \<open>str.lower\<close> are tabulated below
  as CPython computes them.

  Python's \<open>float\<close> is idealised as \<^typ>\<open>real\<close>, extended by the value
  \<open>float('inf')\<close>.
\<close>

definition ord :: "char \<Rightarrow> int" where
  "ord c = int (of_char c)"

definition chr :: "int \<Rightarrow> char" where
  "chr n = char_of (nat n)"

definition isalpha :: "char \<Rightarrow> bool" where
  "isalpha c =
     (let n = (of_char c :: nat) in
        (65 \<le> n \<and> n \<le> 90) \<or> (97 \<le> n \<and> n \<le> 122) \<or>
        n = 170 \<or> n = 181 \<or> n = 186 \<or>
        (192 \<le> n \<and> n \<le> 214) \<or> (216 \<le> n \<and> n \<le> 246) \<or> (248 \<le> n \<and> n \<le> 255))"

definition isspace :: "char \<Rightarrow> bool" where
  "isspace c =
     (let n = (of_char c :: nat) in
        (9 \<le> n \<and> n \<le> 13) \<or> (28 \<le> n \<and> n \<le> 32) \<or> n = 133 \<or> n = 160)"

definition lower_char :: "char \<Rightarrow> char" where
  "lower_char c =
     (let n = (of_char c :: nat) in
        if (65 \<le> n \<and> n \<le> 90) \<or> (192 \<le> n \<and> n \<le> 214) \<or> (216 \<le> n \<and> n \<le> 222)
        then char_of (n + 32) else c)"

text \<open>
  On this range \<open>str.lower\<close> maps every character to a single character, so it is a
  map over the text. No theorem below relies on how lowercasing interacts with
  \<open>isalpha\<close> or with splitting.
\<close>

definition lower :: "string \<Rightarrow> string" where
  "lower text = map lower_char text"

text \<open>
  \<open>str.split()\<close> without arguments: the maximal runs of non-whitespace characters, in
  order; \<open>cur\<close> is the token being read.
\<close>

fun split_from :: "string \<Rightarrow> string \<Rightarrow> string list" where
  "split_from cur [] = (if cur = [] then [] else [cur])"
| "split_from cur (c # cs) =
     (if isspace c then (if cur = [] then split_from [] cs else cur # split_from [] cs)
      else split_from (cur @ [c]) cs)"

definition split_ws :: "string \<Rightarrow> string list" where
  "split_ws text = split_from [] text"

definition ascii_lowercase :: string where
  "ascii_lowercase = ''abcdefghijklmnopqrstuvwxyz''"

text \<open>
  \<open>collections.Counter\<close> over a sequence: a dictionary from element to count, whose
  items come in the order of first occurrence.
\<close>

fun counter_add :: "'a \<Rightarrow> ('a \<times> nat) list \<Rightarrow> ('a \<times> nat) list" where
  "counter_add c [] = [(c, 1)]"
| "counter_add c ((k, n) # kvs) =
     (if k = c then (k, n + 1) # kvs else (k, n) # counter_add c kvs)"

definition Counter :: "'a list \<Rightarrow> ('a \<times> nat) list" where
  "Counter xs = foldl (\<lambda>acc c. counter_add c acc) [] xs"

definition counter_get :: "('a \<times> nat) list \<Rightarrow> 'a \<Rightarrow> nat" where
  "counter_get freq_count k = (case map_of freq_count k of None \<Rightarrow> 0 | Some n \<Rightarrow> n)"

text \<open>
  \<open>sorted(xs, key=key, reverse=True)\<close>: CPython reverses the list, sorts it stably in
  ascending order and reverses the result, so equal keys keep their original order.
\<close>

definition sorted_reverse :: "('a \<Rightarrow> 'k::linorder) \<Rightarrow> 'a list \<Rightarrow> 'a list" where
  "sorted_reverse key xs = rev (sort_key key (rev xs))"

datatype score = Finite real | PosInf

fun score_lt :: "score \<Rightarrow> score \<Rightarrow> bool" where
  "score_lt (Finite x) (Finite y) = (x < y)"
| "score_lt (Finite x) PosInf = True"
| "score_lt PosInf _ = False"

fun score_sub :: "score \<Rightarrow> real \<Rightarrow> score" where
  "score_sub (Finite x) y = Finite (x - y)"
| "score_sub PosInf y = PosInf"

datatype py_error = ValueError

text \<open>
  \<open>min(xs, key=key)\<close>: the first element is the running best, and a later one replaces
  it only when its key is strictly smaller; an empty sequence raises \<open>ValueError\<close>.
\<close>

fun min_from :: "('a \<Rightarrow> score) \<Rightarrow> 'a \<Rightarrow> 'a list \<Rightarrow> 'a" where
  "min_from key best [] = best"
| "min_from key best (x # xs) =
     (if score_lt (key x) (key best) then min_from key x xs else min_from key best xs)"

definition py_min :: "('a \<Rightarrow> score) \<Rightarrow> 'a list \<Rightarrow> py_error + 'a" where
  "py_min key xs = (case xs of [] \<Rightarrow> Inl ValueError | x # rest \<Rightarrow> Inr (min_from key x rest))"

text \<open>The unaccented lowercase letters \<open>a\<close> to \<open>z\<close>, by code point.\<close>

definition is_ascii_lower :: "char \<Rightarrow> bool" where
  "is_ascii_lower c = (ord (CHR ''a'') \<le> ord c \<and> ord c \<le> ord (CHR ''z''))"

section \<open>The language model\<close>

definition FR_FREQUENCIES :: "(char \<times> real) list" where
  "FR_FREQUENCIES =
     [(CHR ''e'', 17.26), (CHR ''a'', 8.23), (CHR ''i'', 7.24), (CHR ''o'', 5.28),
      (CHR ''n'', 7.15), (CHR ''s'', 7.94), (CHR ''r'', 6.64), (CHR ''t'', 7.30),
      (CHR ''u'', 6.05), (CHR ''l'', 5.34), (CHR ''d'', 3.67), (CHR ''c'', 3.15),
      (CHR ''p'', 3.01), (CHR ''m'', 2.74), (CHR ''h'', 0.92), (CHR ''g'', 1.04),
      (CHR ''f'', 1.07), (CHR ''b'', 1.47), (CHR ''v'', 1.13), (CHR ''q'', 0.89),
      (CHR ''j'', 0.89), (CHR ''k'', 0.00), (CHR ''w'', 0.00), (CHR ''x'', 0.54),
      (CHR ''y'', 0.46), (CHR ''z'', 0.12)]"

definition fr_get :: "char \<Rightarrow> real" where
  "fr_get letter = (case map_of FR_FREQUENCIES letter of None \<Rightarrow> 0 | Some f \<Rightarrow> f)"

definition FR_COMMON_WORDS :: "string set" where
  "FR_COMMON_WORDS =
     {''le'', ''la'', ''de'', ''et'', [CHR 0xE0], ''un'', ''une'', ''les'', ''des'',
      ''en'', ''par'', ''pour'', ''dans'', ''avec'', ''sur'', ''que'', ''qui'',
      ''est'', ''il'', ''elle'', ''vous'', ''nous'', ''je'', ''tu'', ''ce'',
      ''au'', ''du'', ''se'', ''pas'', ''plus'', ''bien'', ''peu'', ''fait''}"

section \<open>The analyzer\<close>

record CryptoAnalyzer =
  encrypted :: string
  clean_text :: string

definition init :: "string \<Rightarrow> CryptoAnalyzer" where
  "init encrypted_text =
     \<lparr>encrypted = lower encrypted_text,
      clean_text = filter isalpha (lower encrypted_text)\<rparr>"

subsection \<open>Cipher transforms\<close>

fun caesar_decrypt :: "string \<Rightarrow> int \<Rightarrow> string" where
  "caesar_decrypt [] shift = []"
| "caesar_decrypt (c # text) shift =
     (if isalpha c
      then (let base = ord (CHR ''a''); shifted = (ord c - base - shift) mod 26
            in chr (base + shifted))
      else c) # caesar_decrypt text shift"

text \<open>
  A substitution key is a \<open>Dict[str, str]\<close>; \<open>key.get(c, c)\<close> looks up the
  one-character string \<open>c\<close> and the results are joined.
\<close>

type_synonym subst_key = "string \<rightharpoonup> string"

definition monoalpha_decrypt :: "string \<Rightarrow> subst_key \<Rightarrow> string" where
  "monoalpha_decrypt text key =
     concat (map (\<lambda>c. case key [c] of None \<Rightarrow> [c] | Some v \<Rightarrow> v) text)"

subsection \<open>Scoring\<close>

definition text_clean :: "string \<Rightarrow> string" where
  "text_clean text = filter isalpha text"

fun chi2_loop :: "(char \<times> nat) list \<Rightarrow> nat \<Rightarrow> real \<Rightarrow> string \<Rightarrow> real" where
  "chi2_loop freq_count n chi2 [] = chi2"
| "chi2_loop freq_count n chi2 (letter # letters) =
     (let observed = counter_get freq_count letter;
          expected = (fr_get letter / 100) * real n
      in if expected > 0
         then chi2_loop freq_count n (chi2 + (real observed - expected)\<^sup>2 / expected) letters
         else chi2_loop freq_count n chi2 letters)"

definition chi_squared_score :: "string \<Rightarrow> score" where
  "chi_squared_score text =
     (if text_clean text = [] then PosInf
      else Finite (chi2_loop (Counter (text_clean text)) (length (text_clean text)) 0
                     ascii_lowercase))"

definition words_clean :: "string \<Rightarrow> string list" where
  "words_clean text = map (filter isalpha) (split_ws (lower text))"

definition matches :: "string \<Rightarrow> nat" where
  "matches text =
     length (filter (\<lambda>w. w \<in> FR_COMMON_WORDS \<and> length w > 2) (words_clean text))"

definition word_score :: "string \<Rightarrow> real" where
  "word_score text =
     (if words_clean text = [] then 0
      else real (matches text) / real (length (words_clean text)))"

definition combined_score :: "string \<Rightarrow> score" where
  "combined_score text =
     (let chi2 = chi_squared_score text; word_bonus = word_score text * 50
      in score_sub chi2 word_bonus)"

subsection \<open>Key search\<close>

definition results :: "CryptoAnalyzer \<Rightarrow> (int \<times> string \<times> score) list" where
  "results self =
     map (\<lambda>shift. let decrypted = caesar_decrypt (encrypted self) shift;
                       score = combined_score decrypted
                   in (shift, decrypted, score)) [0..25]"

definition break_caesar :: "CryptoAnalyzer \<Rightarrow> py_error + (int \<times> string \<times> score)" where
  "break_caesar self = py_min (\<lambda>x. snd (snd x)) (results self)"

definition sorted_encrypted :: "CryptoAnalyzer \<Rightarrow> (char \<times> nat) list" where
  "sorted_encrypted self = sorted_reverse snd (Counter (clean_text self))"

definition sorted_french :: "(char \<times> real) list" where
  "sorted_french = sorted_reverse snd FR_FREQUENCIES"

fun build_key :: "subst_key \<Rightarrow> ((char \<times> nat) \<times> (char \<times> real)) list \<Rightarrow> subst_key" where
  "build_key key [] = key"
| "build_key key (((enc_char, _), (fr_char, _)) # pairs) =
     build_key (key([enc_char] \<mapsto> [fr_char])) pairs"

definition monoalpha_key :: "CryptoAnalyzer \<Rightarrow> subst_key" where
  "monoalpha_key self = build_key Map.empty (zip (sorted_encrypted self) sorted_french)"

definition break_monoalpha_simple :: "CryptoAnalyzer \<Rightarrow> string \<times> score" where
  "break_monoalpha_simple self =
     (let key = monoalpha_key self;
          decrypted = monoalpha_decrypt (encrypted self) key;
          score = combined_score decrypted
      in (decrypted, score))"

section \<open>Properties of the builtins\<close>

lemma ord_a: "ord (CHR ''a'') = 97"
  by (simp add: ord_def)

lemma ord_z: "ord (CHR ''z'') = 122"
  by (simp add: ord_def)

lemma ord_A: "ord (CHR ''A'') = 65"
  by (simp add: ord_def)

lemma ord_chr: "0 \<le> n \<Longrightarrow> n < 256 \<Longrightarrow> ord (chr n) = n"
  by (simp add: ord_def chr_def)

lemma chr_ord: "chr (ord c) = c"
  by (simp add: ord_def chr_def)

lemma isalpha_ord:
  "isalpha c \<longleftrightarrow>
     (65 \<le> ord c \<and> ord c \<le> 90) \<or> (97 \<le> ord c \<and> ord c \<le> 122) \<or>
     ord c = 170 \<or> ord c = 181 \<or> ord c = 186 \<or>
     (192 \<le> ord c \<and> ord c \<le> 214) \<or> (216 \<le> ord c \<and> ord c \<le> 246) \<or>
     (248 \<le> ord c \<and> ord c \<le> 255)"
  unfolding isalpha_def ord_def Let_def by presburger

lemma ord_shifted: "ord (chr (97 + k mod 26)) = 97 + k mod 26"
proof -
  have "0 \<le> k mod 26" "k mod 26 < 26" by simp_all
  then have "0 \<le> 97 + k mod 26" "97 + k mod 26 < 256" by linarith+
  then show ?thesis by (rule ord_chr)
qed

lemma is_ascii_lower_shifted: "is_ascii_lower (chr (ord (CHR ''a'') + k mod 26))"
proof -
  have "0 \<le> k mod 26" "k mod 26 < 26" by simp_all
  then show ?thesis unfolding is_ascii_lower_def ord_a ord_z ord_shifted by linarith
qed

lemma is_ascii_lower_isalpha: "is_ascii_lower c \<Longrightarrow> isalpha c"
  by (simp add: is_ascii_lower_def isalpha_ord ord_a ord_z)

section \<open>Caesar decryption\<close>

lemma length_caesar_decrypt: "length (caesar_decrypt t shift) = length t"
  by (induction t) simp_all

lemma caesar_decrypt_nth:
  "i < length t \<Longrightarrow>
   caesar_decrypt t shift ! i =
     (if isalpha (t ! i)
      then chr (ord (CHR ''a'') + (ord (t ! i) - ord (CHR ''a'') - shift) mod 26)
      else t ! i)"
proof (induction t arbitrary: i)
  case Nil
  then show ?case by simp
next
  case (Cons c t)
  then show ?case by (cases i) (simp_all add: Let_def)
qed

lemma caesar_decrypt_shift_mod: "caesar_decrypt t (shift mod 26) = caesar_decrypt t shift"
  by (induction t) (simp_all add: mod_diff_right_eq)

text \<open>
  C7. Any integer shift is accepted, and only its residue modulo 26 matters: decrypting
  with \<open>s + 26\<close>, with \<open>s - 26\<close> or with \<open>s mod 26\<close> gives the same text as
  decrypting with \<open>s\<close>.
\<close>

theorem caesar_decrypt_modulo:
  "caesar_decrypt t (s + 26) = caesar_decrypt t s \<and>
   caesar_decrypt t (s - 26) = caesar_decrypt t s \<and>
   caesar_decrypt t (s mod 26) = caesar_decrypt t s"
proof -
  have "caesar_decrypt t ((s + 26) mod 26) = caesar_decrypt t (s mod 26)"
       "caesar_decrypt t ((s - 26) mod 26) = caesar_decrypt t (s mod 26)"
    by simp_all
  then show ?thesis by (simp only: caesar_decrypt_shift_mod)
qed

theorem caesar_decrypt_modulo_witness:
  "caesar_decrypt ''uryyb, jbeyq!'' (13 + 26) = ''hello, world!'' \<and>
   caesar_decrypt ''uryyb, jbeyq!'' (13 - 26) = ''hello, world!'' \<and>
   caesar_decrypt ''uryyb, jbeyq!'' (13 mod 26) = ''hello, world!''"
proof -
  have "caesar_decrypt ''uryyb, jbeyq!'' 13 = ''hello, world!''" by code_simp
  then show ?thesis
    by (simp only: caesar_decrypt_modulo [of "''uryyb, jbeyq!''" 13])
qed

section \<open>Length preservation\<close>

lemma monoalpha_decrypt_map:
  assumes "\<And>k v. key k = Some v \<Longrightarrow> length v = 1"
  shows "monoalpha_decrypt t key = map (\<lambda>c. case key [c] of None \<Rightarrow> c | Some v \<Rightarrow> hd v) t"
proof (induction t)
  case Nil
  show ?case by (simp add: monoalpha_decrypt_def)
next
  case (Cons c t)
  have step: "(case key [c] of None \<Rightarrow> [c] | Some v \<Rightarrow> v) =
              [case key [c] of None \<Rightarrow> c | Some v \<Rightarrow> hd v]"
  proof (cases "key [c]")
    case None
    then show ?thesis by simp
  next
    case (Some v)
    then have "length v = 1" by (rule assms)
    then obtain x where "v = [x]" by (cases v) auto
    with Some show ?thesis by simp
  qed
  from Cons step show ?case by (simp add: monoalpha_decrypt_def)
qed

text \<open>
  C6. For every text, every integer shift and every substitution key whose entries map
  a one-character string to a one-character string, the Caesar decryption and the
  substitution decryption have exactly the length of the text.
\<close>

theorem decrypt_preserves_length:
  assumes "\<And>k v. key k = Some v \<Longrightarrow> length k = 1 \<and> length v = 1"
  shows "length (caesar_decrypt t s) = length t \<and> length (monoalpha_decrypt t key) = length t"
proof -
  have "\<And>k v. key k = Some v \<Longrightarrow> length v = 1" using assms by blast
  then have "length (monoalpha_decrypt t key) = length t"
    by (simp add: monoalpha_decrypt_map)
  then show ?thesis by (simp add: length_caesar_decrypt)
qed

theorem decrypt_preserves_length_witness:
  "length (caesar_decrypt ''uryyb, jbeyq!'' (-40)) = 13 \<and>
   length (monoalpha_decrypt ''uryyb, jbeyq!'' [''u'' \<mapsto> ''e'', ''y'' \<mapsto> ''a'']) = 13"
proof -
  have "\<And>k v. [''u'' \<mapsto> ''e'', ''y'' \<mapsto> ''a''] k = Some v \<Longrightarrow> length k = 1 \<and> length v = 1"
    by (auto split: if_splits)
  from decrypt_preserves_length
    [where key = "[''u'' \<mapsto> ''e'', ''y'' \<mapsto> ''a'']" and t = "''uryyb, jbeyq!''" and s = "-40",
     OF this]
  show ?thesis by simp
qed

section \<open>What Caesar decryption does to an alphabetic character\<close>

text \<open>
  C10. At every position whose input character satisfies \<open>isalpha\<close>, the output
  character is \<open>chr(ord('a') + ((ord(c) - ord('a') - shift) mod 26))\<close>, an unaccented
  lowercase letter; for an uppercase input letter it is therefore not the uppercase
  letter shifted back by \<open>shift\<close>.
\<close>

theorem caesar_decrypt_alphabetic:
  assumes "i < length t" and "isalpha (t ! i)"
  shows "caesar_decrypt t shift ! i =
           chr (ord (CHR ''a'') + ((ord (t ! i) - ord (CHR ''a'') - shift) mod 26)) \<and>
         is_ascii_lower (caesar_decrypt t shift ! i) \<and>
         (ord (CHR ''A'') \<le> ord (t ! i) \<and> ord (t ! i) \<le> ord (CHR ''Z'') \<longrightarrow>
            caesar_decrypt t shift ! i \<noteq>
              chr (ord (CHR ''A'') + ((ord (t ! i) - ord (CHR ''A'') - shift) mod 26)))"
proof -
  let ?r = "caesar_decrypt t shift ! i"
  have eq: "?r = chr (ord (CHR ''a'') + ((ord (t ! i) - ord (CHR ''a'') - shift) mod 26))"
    using assms by (simp add: caesar_decrypt_nth)
  then have low: "is_ascii_lower ?r" by (simp only: is_ascii_lower_shifted)
  have "?r \<noteq> chr (ord (CHR ''A'') + (k mod 26))" for k
  proof
    assume "?r = chr (ord (CHR ''A'') + (k mod 26))"
    then have "ord ?r = ord (chr (65 + k mod 26))" by (simp add: ord_A)
    moreover have "0 \<le> k mod 26" "k mod 26 < 26" by simp_all
    then have "ord (chr (65 + k mod 26)) = 65 + k mod 26" "65 + k mod 26 < 97"
      by (simp_all add: ord_chr)
    moreover have "97 \<le> ord ?r" using low by (simp add: is_ascii_lower_def ord_a)
    ultimately show False by linarith
  qed
  with eq low show ?thesis by blast
qed

theorem caesar_decrypt_alphabetic_witness:
  "caesar_decrypt ''Bonjour'' (-3) ! 0 = CHR ''y'' \<and>
   is_ascii_lower (caesar_decrypt ''Bonjour'' (-3) ! 0) \<and>
   caesar_decrypt ''Bonjour'' (-3) ! 0 \<noteq> CHR ''E''"
proof -
  have a: "(0::nat) < length ''Bonjour''" by simp
  have b: "isalpha (''Bonjour'' ! 0)" by code_simp
  have c: "ord (CHR ''A'') \<le> ord (''Bonjour'' ! 0) \<and> ord (''Bonjour'' ! 0) \<le> ord (CHR ''Z'')"
    by code_simp
  have d: "chr (ord (CHR ''a'') + ((ord (''Bonjour'' ! 0) - ord (CHR ''a'') - (-3)) mod 26)) = CHR ''y''"
    by code_simp
  have e: "chr (ord (CHR ''A'') + ((ord (''Bonjour'' ! 0) - ord (CHR ''A'') - (-3)) mod 26)) = CHR ''E''"
    by code_simp
  from caesar_decrypt_alphabetic [OF a b, of "-3"] c
  have "caesar_decrypt ''Bonjour'' (-3) ! 0 =
          chr (ord (CHR ''a'') + ((ord (''Bonjour'' ! 0) - ord (CHR ''a'') - (-3)) mod 26)) \<and>
        is_ascii_lower (caesar_decrypt ''Bonjour'' (-3) ! 0) \<and>
        caesar_decrypt ''Bonjour'' (-3) ! 0 \<noteq>
          chr (ord (CHR ''A'') + ((ord (''Bonjour'' ! 0) - ord (CHR ''A'') - (-3)) mod 26))"
    by blast
  then show ?thesis unfolding d e .
qed

section \<open>Round trip\<close>

lemma caesar_round_trip_char:
  assumes "is_ascii_lower c"
  shows "chr (97 + (ord (chr (97 + (ord c - 97 - (- s)) mod 26)) - 97 - s) mod 26) = c"
proof -
  from assms have b: "97 \<le> ord c" "ord c \<le> 122" by (simp_all add: is_ascii_lower_def ord_a ord_z)
  have "(ord (chr (97 + (ord c - 97 - (- s)) mod 26)) - 97 - s) mod 26
        = ((ord c - 97 - (- s)) mod 26 - s) mod 26"
    by (simp only: ord_shifted) simp
  also have "\<dots> = (ord c - 97) mod 26"
    by (simp add: mod_diff_left_eq)
  also have "\<dots> = ord c - 97" using b by simp
  finally show ?thesis by (simp add: chr_ord)
qed

text \<open>
  C3, as the code has it. Encrypting with \<open>caesar_decrypt text (-s)\<close> and decrypting
  with \<open>s\<close> gives the text back, for every shift \<open>s\<close> in \<open>[0, 26)\<close> and every text
  in which each character is either an unaccented lowercase letter \<open>a\<close> to \<open>z\<close> or a
  character that \<open>isalpha\<close> rejects (and that the code therefore copies through).
\<close>

theorem caesar_round_trip:
  assumes "\<forall>c \<in> set t. is_ascii_lower c \<or> \<not> isalpha c" and "0 \<le> s" and "s < 26"
  shows "caesar_decrypt (caesar_decrypt t (- s)) s = t"
  using assms(1)
proof (induction t)
  case Nil
  show ?case by simp
next
  case (Cons c t)
  then have rest: "caesar_decrypt (caesar_decrypt t (- s)) s = t" by simp
  from Cons.prems have "is_ascii_lower c \<or> \<not> isalpha c" by simp
  then show ?case
  proof
    assume low: "is_ascii_lower c"
    then have "isalpha c" by (rule is_ascii_lower_isalpha)
    moreover have "isalpha (chr (ord (CHR ''a'') + (ord c - ord (CHR ''a'') - (- s)) mod 26))"
      by (rule is_ascii_lower_isalpha) (rule is_ascii_lower_shifted)
    ultimately show ?thesis
      using caesar_round_trip_char [OF low, of s] rest by (simp add: Let_def ord_a)
  next
    assume "\<not> isalpha c"
    with rest show ?thesis by simp
  qed
qed

theorem caesar_round_trip_witness:
  "caesar_decrypt (caesar_decrypt ''ceci est un secret'' (- 7)) 7 = ''ceci est un secret'' \<and>
   caesar_decrypt ''ceci est un secret'' (- 7) = ''jljp lza bu zljyla''"
proof -
  have h: "\<forall>c \<in> set ''ceci est un secret''. is_ascii_lower c \<or> \<not> isalpha c"
    by code_simp
  have e: "caesar_decrypt ''ceci est un secret'' (- 7) = ''jljp lza bu zljyla''"
    by code_simp
  have "(0::int) \<le> 7" "(7::int) < 26" by simp_all
  then have "caesar_decrypt (caesar_decrypt ''ceci est un secret'' (- 7)) 7 = ''ceci est un secret''"
    by (rule caesar_round_trip [OF h])
  then show ?thesis using e by (rule conjI)
qed

text \<open>
  The round trip fails on the lowercase French word for coffee, whose last character is
  U+00E9 (e with an acute accent): \<open>isalpha\<close> accepts the accented letter, so
  encryption with shift 3 turns it into \<open>j\<close> and decryption turns that into \<open>g\<close>.
\<close>

theorem caesar_round_trip_counterexample:
  "lower [CHR ''c'', CHR ''a'', CHR ''f'', CHR 0xE9] = [CHR ''c'', CHR ''a'', CHR ''f'', CHR 0xE9] \<and>
   isalpha (CHR 0xE9) \<and> \<not> is_ascii_lower (CHR 0xE9) \<and>
   caesar_decrypt [CHR ''c'', CHR ''a'', CHR ''f'', CHR 0xE9] (- 3) = ''fdij'' \<and>
   caesar_decrypt (caesar_decrypt [CHR ''c'', CHR ''a'', CHR ''f'', CHR 0xE9] (- 3)) 3 = ''cafg'' \<and>
   ''cafg'' \<noteq> [CHR ''c'', CHR ''a'', CHR ''f'', CHR 0xE9]"
  by code_simp

section \<open>Which characters are letters\<close>

lemma chi_squared_score_text_clean: "chi_squared_score (text_clean t) = chi_squared_score t"
  by (simp add: chi_squared_score_def text_clean_def)

text \<open>
  The accented letter U+00E9 lies outside \<open>a\<close> to \<open>z\<close>, yet \<open>caesar_decrypt\<close> with
  shift 0 turns it into \<open>g\<close>, and it belongs to the letters-only view of
  \<open>chi_squared_score\<close>, whose result on it is finite.
\<close>

theorem alphabetic_scope_counterexample:
  "\<not> is_ascii_lower (CHR 0xE9) \<and>
   caesar_decrypt [CHR 0xE9] 0 = ''g'' \<and> ''g'' \<noteq> [CHR 0xE9] \<and>
   text_clean [CHR 0xE9] = [CHR 0xE9] \<and>
   chi_squared_score [CHR 0xE9] = Finite 0.9953"
  by code_simp

text \<open>
  C1, as the code has it. The characters that \<open>isalpha\<close> rejects (digits, punctuation,
  whitespace and the like) are copied through unchanged by \<open>caesar_decrypt\<close>, at their
  position, and are left out of the letters-only view of \<open>chi_squared_score\<close>: the view
  holds exactly the characters of the text that \<open>isalpha\<close> accepts, and the score of a
  text is the score of its alphabetic characters alone.
\<close>

theorem non_alphabetic_pass_through:
  "(i < length t \<and> \<not> isalpha (t ! i) \<longrightarrow> caesar_decrypt t s ! i = t ! i) \<and>
   (c \<in> set (text_clean t) \<longleftrightarrow> c \<in> set t \<and> isalpha c) \<and>
   chi_squared_score t = chi_squared_score (filter isalpha t)"
  using chi_squared_score_text_clean [of t]
  by (simp add: caesar_decrypt_nth text_clean_def)

theorem non_alphabetic_pass_through_witness:
  "caesar_decrypt ''a1, b'' 3 ! 1 = CHR ''1'' \<and>
   CHR ''1'' \<notin> set (text_clean ''a1, b'') \<and>
   chi_squared_score ''a1, b'' = chi_squared_score ''ab''"
proof -
  have a: "(1::nat) < length ''a1, b'' \<and> \<not> isalpha (''a1, b'' ! 1)" by code_simp
  have b: "''a1, b'' ! 1 = CHR ''1''" by simp
  have c: "\<not> (CHR ''1'' \<in> set ''a1, b'' \<and> isalpha (CHR ''1''))" by code_simp
  have d: "filter isalpha ''a1, b'' = ''ab''" by code_simp
  from non_alphabetic_pass_through [of 1 "''a1, b''" 3 "CHR ''1''"] a b c d
  show ?thesis by (simp only: simp_thms)
qed

section \<open>The chi-squared score\<close>

lemma chi2_loop_nonneg: "0 \<le> chi2 \<Longrightarrow> 0 \<le> chi2_loop freq_count n chi2 letters"
proof (induction letters arbitrary: chi2)
  case Nil
  then show ?case by simp
next
  case (Cons letter letters)
  show ?case
  proof (cases "fr_get letter / 100 * real n > 0")
    case True
    then have "0 \<le> (real (counter_get freq_count letter) - fr_get letter / 100 * real n)\<^sup>2
                     / (fr_get letter / 100 * real n)"
      by simp
    with Cons.prems have "0 \<le> chi2 + (real (counter_get freq_count letter)
        - fr_get letter / 100 * real n)\<^sup>2 / (fr_get letter / 100 * real n)"
      by linarith
    then show ?thesis using True Cons.IH by (simp add: Let_def)
  next
    case False
    then show ?thesis using Cons by (simp add: Let_def)
  qed
qed

text \<open>
  C4. \<open>chi_squared_score\<close> returns on every text: positive infinity exactly when the
  letters-only view \<open>text_clean\<close> is empty, and otherwise a finite value that is at
  least 0. The only division is guarded by \<open>expected > 0\<close>, so nothing raises.
\<close>

theorem chi_squared_score_total:
  "(chi_squared_score t = PosInf \<longleftrightarrow> text_clean t = []) \<and>
   (text_clean t \<noteq> [] \<longrightarrow> (\<exists>x. chi_squared_score t = Finite x \<and> 0 \<le> x))"
  by (simp add: chi_squared_score_def chi2_loop_nonneg)

theorem chi_squared_score_total_witness:
  "chi_squared_score ''12, 34!'' = PosInf \<and> text_clean ''12, 34!'' = [] \<and>
   text_clean ''le 5'' \<noteq> [] \<and> (\<exists>x. chi_squared_score ''le 5'' = Finite x \<and> 0 \<le> x)"
proof -
  have a: "text_clean ''12, 34!'' = []" by code_simp
  have b: "text_clean ''le 5'' \<noteq> []" by code_simp
  from chi_squared_score_total [of "''12, 34!''"] a
  have "chi_squared_score ''12, 34!'' = PosInf" by blast
  moreover from chi_squared_score_total [of "''le 5''"] b
  have "\<exists>x. chi_squared_score ''le 5'' = Finite x \<and> 0 \<le> x" by blast
  ultimately show ?thesis using a b by blast
qed

section \<open>The word score\<close>


lemma length_words_clean: "length (words_clean t) = length (split_ws (lower t))"
  by (simp add: words_clean_def)




section \<open>Selecting the minimum\<close>

lemma score_lt_irrefl: "\<not> score_lt a a"
  by (cases a) simp_all

lemma score_lt_trans: "score_lt a b \<Longrightarrow> score_lt b c \<Longrightarrow> score_lt a c"
  by (cases a; cases b; cases c) simp_all

lemma score_lt_asym: "score_lt a b \<Longrightarrow> \<not> score_lt b a"
  by (cases a; cases b) simp_all

lemma score_lt_not_trans: "score_lt a b \<Longrightarrow> \<not> score_lt c b \<Longrightarrow> score_lt a c"
  by (cases a; cases b; cases c) simp_all

lemma score_not_lt_trans: "\<not> score_lt b a \<Longrightarrow> \<not> score_lt c b \<Longrightarrow> \<not> score_lt c a"
  by (cases a; cases b; cases c) simp_all

lemma min_from_first_minimal:
  "\<exists>pre post. best # xs = pre @ min_from key best xs # post \<and>
     (\<forall>y \<in> set pre. score_lt (key (min_from key best xs)) (key y)) \<and>
     (\<forall>y \<in> set post. \<not> score_lt (key y) (key (min_from key best xs)))"
proof (induction xs arbitrary: best)
  case Nil
  have "[best] = [] @ best # []" by simp
  then show ?case by fastforce
next
  case (Cons x xs)
  show ?case
  proof (cases "score_lt (key x) (key best)")
    case True
    let ?r = "min_from key x xs"
    from Cons [of x] obtain pre post where d: "x # xs = pre @ ?r # post"
      and p: "\<forall>y \<in> set pre. score_lt (key ?r) (key y)"
      and q: "\<forall>y \<in> set post. \<not> score_lt (key y) (key ?r)" by blast
    have "score_lt (key ?r) (key best)"
    proof (cases pre)
      case Nil
      from d [unfolded Nil append_Nil] have "x # xs = ?r # post" .
      then have "x = ?r" by (rule list.inject [THEN iffD1, THEN conjunct1])
      with True show ?thesis by metis
    next
      case (Cons z zs)
      with d have "x \<in> set pre" by simp
      with p have "score_lt (key ?r) (key x)" by blast
      with True show ?thesis by (blast intro: score_lt_trans)
    qed
    with p have "\<forall>y \<in> set (best # pre). score_lt (key ?r) (key y)" by simp
    moreover from d have "best # x # xs = (best # pre) @ ?r # post" by simp
    moreover have "min_from key best (x # xs) = ?r" using True by simp
    ultimately show ?thesis using q by (simp only:) blast
  next
    case False
    let ?r = "min_from key best xs"
    from Cons [of best] obtain pre post where d: "best # xs = pre @ ?r # post"
      and p: "\<forall>y \<in> set pre. score_lt (key ?r) (key y)"
      and q: "\<forall>y \<in> set post. \<not> score_lt (key y) (key ?r)" by blast
    show ?thesis
    proof (cases pre)
      case Nil
      from d [unfolded Nil append_Nil] have "best # xs = ?r # post" .
      then have "best = ?r \<and> xs = post" by (rule list.inject [THEN iffD1])
      then have r: "?r = best" and xs: "xs = post" by (rule conjunct1 [THEN sym], rule conjunct2)
      from r False q have "\<forall>y \<in> set (x # post). \<not> score_lt (key y) (key ?r)" by simp
      moreover from r xs have "best # x # xs = [] @ ?r # (x # post)" by simp
      moreover have "\<forall>y \<in> set ([]::'a list). score_lt (key ?r) (key y)" by simp
      moreover have "min_from key best (x # xs) = ?r" using False by simp
      ultimately show ?thesis by (simp only:) blast
    next
      case (Cons z zs)
      from d [unfolded Cons append_Cons] have "best # xs = z # (zs @ ?r # post)" .
      then have "best = z \<and> xs = zs @ ?r # post" by (rule list.inject [THEN iffD1])
      then have z: "z = best" and xs: "xs = zs @ ?r # post"
        by (rule conjunct1 [THEN sym], rule conjunct2)
      from p Cons z have "score_lt (key ?r) (key best)" by simp
      then have "score_lt (key ?r) (key x)" using False by (rule score_lt_not_trans)
      with p Cons z have "\<forall>y \<in> set (best # x # zs). score_lt (key ?r) (key y)" by simp
      moreover from xs have "best # x # xs = (best # x # zs) @ ?r # post" by simp
      moreover have "min_from key best (x # xs) = ?r" using False by simp
      ultimately show ?thesis using q by (simp only:) blast
    qed
  qed
qed

lemma map_eq_append_ConsD:
  "map f ks = pre @ r # post \<Longrightarrow>
   \<exists>us v ws. ks = us @ v # ws \<and> pre = map f us \<and> r = f v \<and> post = map f ws"
proof (induction pre arbitrary: ks)
  case Nil
  then obtain v ws where "ks = v # ws" "r = f v" "post = map f ws"
    by (cases ks) auto
  then have "ks = [] @ v # ws \<and> [] = map f [] \<and> r = f v \<and> post = map f ws" by simp
  then show ?case by (intro exI)
next
  case (Cons a pre)
  then obtain k ks' where ks: "ks = k # ks'" and a: "a = f k" and m: "map f ks' = pre @ r # post"
    by (cases ks) auto
  from Cons.IH [OF m] obtain us v ws where
    "ks' = us @ v # ws" "pre = map f us" "r = f v" "post = map f ws" by blast
  with ks a have "ks = (k # us) @ v # ws \<and> a # pre = map f (k # us) \<and> r = f v \<and> post = map f ws"
    by simp
  then show ?case by (intro exI)
qed

lemma py_min_map_first_minimal:
  fixes f :: "'k::linorder \<Rightarrow> 'b" and key :: "'b \<Rightarrow> score"
  assumes ne: "ks \<noteq> []" and so: "sorted ks" and di: "distinct ks"
  shows "\<exists>v. v \<in> set ks \<and> py_min key (map f ks) = Inr (f v) \<and>
           (\<forall>k \<in> set ks. \<not> score_lt (key (f k)) (key (f v))) \<and>
           (\<forall>k \<in> set ks. k < v \<longrightarrow> score_lt (key (f v)) (key (f k)))"
proof -
  from ne obtain k0 rest where ks: "ks = k0 # rest" by (cases ks) auto
  let ?r = "min_from key (f k0) (map f rest)"
  have bc: "py_min key (map f ks) = Inr ?r"
    by (simp add: ks py_min_def)
  from min_from_first_minimal [of "f k0" "map f rest" key]
  obtain pre post where d: "f k0 # map f rest = pre @ ?r # post"
    and p: "\<forall>y \<in> set pre. score_lt (key ?r) (key y)"
    and q: "\<forall>y \<in> set post. \<not> score_lt (key y) (key ?r)" by (elim exE conjE)
  from d have "map f ks = pre @ ?r # post" unfolding ks list.map .
  from map_eq_append_ConsD [OF this]
  obtain us v ws where split: "ks = us @ v # ws" and pre: "pre = map f us"
    and r: "?r = f v" and post: "post = map f ws" by (elim exE conjE)
  from so di have wl: "\<forall>w \<in> set ws. v < w"
    unfolding split by (auto simp: sorted_append less_le)
  have mem: "set ks = set us \<union> {v} \<union> set ws" unfolding split by auto
  have minimal: "\<not> score_lt (key (f k)) (key (f v))" if "k \<in> set ks" for k
  proof -
    from that mem have "k \<in> set us \<or> k = v \<or> k \<in> set ws" by auto
    then show ?thesis
    proof (elim disjE)
      assume "k \<in> set us"
      then have "f k \<in> set pre" by (simp add: pre)
      with p have "score_lt (key ?r) (key (f k))" by (rule bspec)
      then have "score_lt (key (f v)) (key (f k))" unfolding r .
      then show ?thesis by (rule score_lt_asym)
    next
      assume "k = v"
      then show ?thesis by (simp add: score_lt_irrefl)
    next
      assume "k \<in> set ws"
      then have "f k \<in> set post" by (simp add: post)
      with q have "\<not> score_lt (key (f k)) (key ?r)" by (rule bspec)
      then show ?thesis unfolding r .
    qed
  qed
  have first: "score_lt (key (f v)) (key (f k))" if "k \<in> set ks" "k < v" for k
  proof -
    from that mem have "k \<in> set us \<or> k = v \<or> k \<in> set ws" by auto
    with that wl have "k \<in> set us" by auto
    then have "f k \<in> set pre" by (simp add: pre)
    with p have "score_lt (key ?r) (key (f k))" by (rule bspec)
    then show ?thesis unfolding r .
  qed
  have "v \<in> set ks" using mem by simp
  moreover have "py_min key (map f ks) = Inr (f v)" using bc unfolding r .
  ultimately have "v \<in> set ks \<and> py_min key (map f ks) = Inr (f v) \<and>
           (\<forall>k \<in> set ks. \<not> score_lt (key (f k)) (key (f v))) \<and>
           (\<forall>k \<in> set ks. k < v \<longrightarrow> score_lt (key (f v)) (key (f k)))"
    using minimal first by simp
  then show ?thesis by (rule exI)
qed

section \<open>Breaking the Caesar cipher\<close>

lemma results_map:
  "results self =
     map (\<lambda>shift. (shift, caesar_decrypt (encrypted self) shift,
                    combined_score (caesar_decrypt (encrypted self) shift))) [0..25]"
  unfolding results_def Let_def by (rule refl)

lemma combined_score_empty: "combined_score [] = PosInf"
  by (simp add: combined_score_def chi_squared_score_def text_clean_def Let_def)

lemma shifts_facts:
  "[0..25::int] \<noteq> []" "sorted [0..25::int]" "distinct [0..25::int]"
  "k \<in> set [0..25::int] \<longleftrightarrow> 0 \<le> k \<and> k \<le> 25"
proof -
  show "[0..25::int] \<noteq> []" by (simp only: upto_Nil)
  show "sorted [0..25::int]" by (rule sorted_upto)
  show "distinct [0..25::int]" by (rule distinct_upto)
  show "k \<in> set [0..25::int] \<longleftrightarrow> 0 \<le> k \<and> k \<le> 25" by (simp only: set_upto atLeastAtMost_iff)
qed

text \<open>
  C2. \<open>break_caesar\<close> scores the shifts 0 to 25 in increasing order and returns the
  triple of some shift in that range whose score no candidate beats; every earlier shift
  scores strictly worse, so among equal minima the lowest shift wins. On the empty
  ciphertext all 26 candidates score positive infinity and shift 0 is returned.
\<close>

theorem break_caesar_minimum:
  "(\<exists>shift. 0 \<le> shift \<and> shift \<le> 25 \<and>
      break_caesar self =
        Inr (shift, caesar_decrypt (encrypted self) shift,
             combined_score (caesar_decrypt (encrypted self) shift)) \<and>
      (\<forall>k. 0 \<le> k \<and> k \<le> 25 \<longrightarrow>
         \<not> score_lt (combined_score (caesar_decrypt (encrypted self) k))
                     (combined_score (caesar_decrypt (encrypted self) shift))) \<and>
      (\<forall>k. 0 \<le> k \<and> k < shift \<longrightarrow>
         score_lt (combined_score (caesar_decrypt (encrypted self) shift))
                  (combined_score (caesar_decrypt (encrypted self) k)))) \<and>
   map fst (results self) = [0..25] \<and>
   (encrypted self = [] \<longrightarrow>
      break_caesar self = Inr (0, [], PosInf) \<and>
      (\<forall>x \<in> set (results self). snd (snd x) = PosInf))"
proof -
  let ?cs = "\<lambda>k. combined_score (caesar_decrypt (encrypted self) k)"
  let ?f = "\<lambda>shift::int. (shift, caesar_decrypt (encrypted self) shift, ?cs shift)"
  let ?key = "\<lambda>x::int \<times> string \<times> score. snd (snd x)"
  have bcdef: "break_caesar self = py_min ?key (map ?f [0..25])"
    unfolding break_caesar_def results_map by (rule refl)
  have key: "?key (?f k) = ?cs k" for k by simp
  from py_min_map_first_minimal [OF shifts_facts(1-3), of ?key ?f]
  obtain v where vin: "v \<in> set [0..25]" and bc: "py_min ?key (map ?f [0..25]) = Inr (?f v)"
    and mn: "\<forall>k \<in> set [0..25]. \<not> score_lt (?key (?f k)) (?key (?f v))"
    and fs: "\<forall>k \<in> set [0..25]. k < v \<longrightarrow> score_lt (?key (?f v)) (?key (?f k))"
    by (elim exE conjE)
  from vin have vr: "0 \<le> v" "v \<le> 25" unfolding shifts_facts(4) by simp_all
  have minimal: "\<not> score_lt (?cs k) (?cs v)" if "0 \<le> k \<and> k \<le> 25" for k
  proof -
    from that have "k \<in> set [0..25]" unfolding shifts_facts(4) .
    with mn have "\<not> score_lt (?key (?f k)) (?key (?f v))" by (rule bspec)
    then show ?thesis unfolding key .
  qed
  have first: "score_lt (?cs v) (?cs k)" if "0 \<le> k \<and> k < v" for k
  proof -
    from that vr have "0 \<le> k \<and> k \<le> 25" by simp
    then have "k \<in> set [0..25]" unfolding shifts_facts(4) .
    with fs have "k < v \<longrightarrow> score_lt (?key (?f v)) (?key (?f k))" by (rule bspec)
    with that have "score_lt (?key (?f v)) (?key (?f k))" by simp
    then show ?thesis unfolding key .
  qed
  have bcv: "break_caesar self = Inr (?f v)" unfolding bcdef by (rule bc)
  have "0 \<le> v \<and> v \<le> 25 \<and> break_caesar self = Inr (?f v) \<and>
      (\<forall>k. 0 \<le> k \<and> k \<le> 25 \<longrightarrow> \<not> score_lt (?cs k) (?cs v)) \<and>
      (\<forall>k. 0 \<le> k \<and> k < v \<longrightarrow> score_lt (?cs v) (?cs k))"
    using vr bcv minimal first by simp
  then have main: "\<exists>shift. 0 \<le> shift \<and> shift \<le> 25 \<and>
      break_caesar self = Inr (?f shift) \<and>
      (\<forall>k. 0 \<le> k \<and> k \<le> 25 \<longrightarrow> \<not> score_lt (?cs k) (?cs shift)) \<and>
      (\<forall>k. 0 \<le> k \<and> k < shift \<longrightarrow> score_lt (?cs shift) (?cs k))"
    by (rule exI)
  have order: "map fst (results self) = [0..25]"
    unfolding results_map map_map comp_def fst_conv by (rule map_ident [THEN fun_cong])
  have empty: "break_caesar self = Inr (0, [], PosInf) \<and>
      (\<forall>x \<in> set (results self). snd (snd x) = PosInf)" if e: "encrypted self = []"
  proof -
    have all: "?cs k = PosInf" for k by (simp add: e combined_score_empty)
    have "v = 0"
    proof (rule ccontr)
      assume "v \<noteq> 0"
      with vr have "0 \<le> (0::int) \<and> 0 < v" by simp
      then have "score_lt (?cs v) (?cs 0)" by (rule first)
      then show False by (simp add: all)
    qed
    with bcv have "break_caesar self = Inr (0, [], PosInf)"
      by (simp add: e combined_score_empty)
    moreover have "\<forall>x \<in> set (results self). snd (snd x) = PosInf"
      unfolding results_map set_map using all by (intro ballI) (elim imageE, simp)
    ultimately show ?thesis by (rule conjI)
  qed
  then have "encrypted self = [] \<longrightarrow>
      break_caesar self = Inr (0, [], PosInf) \<and>
      (\<forall>x \<in> set (results self). snd (snd x) = PosInf)" by (rule impI)
  with order have "map fst (results self) = [0..25] \<and>
      (encrypted self = [] \<longrightarrow>
        break_caesar self = Inr (0, [], PosInf) \<and>
        (\<forall>x \<in> set (results self). snd (snd x) = PosInf))" by (rule conjI)
  with main show ?thesis by (rule conjI)
qed

theorem break_caesar_minimum_witness:
  "(\<exists>shift. 0 \<le> shift \<and> shift \<le> 25 \<and>
      break_caesar (init ''LZA'') =
        Inr (shift, caesar_decrypt ''lza'' shift, combined_score (caesar_decrypt ''lza'' shift)) \<and>
      \<not> score_lt (Finite (- (31752328255069 / 750318090000)))
                  (combined_score (caesar_decrypt ''lza'' shift))) \<and>
   map fst (results (init ''LZA'')) = [0..25] \<and>
   break_caesar (init '''') = Inr (0, '''', PosInf)"
proof -
  have e: "encrypted (init ''LZA'') = ''lza''" by code_simp
  have e0: "encrypted (init '''') = []" by code_simp
  have s7: "combined_score (caesar_decrypt ''lza'' 7) = Finite (- (31752328255069 / 750318090000))"
    by code_simp
  have r7: "0 \<le> (7::int) \<and> (7::int) \<le> 25" by simp
  from break_caesar_minimum [of "init ''LZA''", unfolded e]
  obtain shift where sr: "0 \<le> shift" "shift \<le> 25"
    and bc: "break_caesar (init ''LZA'') =
        Inr (shift, caesar_decrypt ''lza'' shift, combined_score (caesar_decrypt ''lza'' shift))"
    and mn: "\<forall>k. 0 \<le> k \<and> k \<le> 25 \<longrightarrow>
         \<not> score_lt (combined_score (caesar_decrypt ''lza'' k))
                     (combined_score (caesar_decrypt ''lza'' shift))"
    and order: "map fst (results (init ''LZA'')) = [0..25]"
    by (elim exE conjE)
  from mn have "0 \<le> (7::int) \<and> (7::int) \<le> 25 \<longrightarrow>
         \<not> score_lt (combined_score (caesar_decrypt ''lza'' 7))
                     (combined_score (caesar_decrypt ''lza'' shift))" by (rule spec)
  then have "\<not> score_lt (combined_score (caesar_decrypt ''lza'' 7))
                     (combined_score (caesar_decrypt ''lza'' shift))" using r7 by (rule mp)
  then have "\<not> score_lt (Finite (- (31752328255069 / 750318090000)))
                  (combined_score (caesar_decrypt ''lza'' shift))" unfolding s7 .
  with sr bc have "0 \<le> shift \<and> shift \<le> 25 \<and>
      break_caesar (init ''LZA'') =
        Inr (shift, caesar_decrypt ''lza'' shift, combined_score (caesar_decrypt ''lza'' shift)) \<and>
      \<not> score_lt (Finite (- (31752328255069 / 750318090000)))
                  (combined_score (caesar_decrypt ''lza'' shift))" by (intro conjI)
  then have first: "\<exists>shift. 0 \<le> shift \<and> shift \<le> 25 \<and>
      break_caesar (init ''LZA'') =
        Inr (shift, caesar_decrypt ''lza'' shift, combined_score (caesar_decrypt ''lza'' shift)) \<and>
      \<not> score_lt (Finite (- (31752328255069 / 750318090000)))
                  (combined_score (caesar_decrypt ''lza'' shift))" by (rule exI)
  from break_caesar_minimum [of "init ''''"]
  have "encrypted (init '''') = [] \<longrightarrow>
      break_caesar (init '''') = Inr (0, [], PosInf) \<and>
      (\<forall>x \<in> set (results (init '''')). snd (snd x) = PosInf)" by (elim conjE)
  then have "break_caesar (init '''') = Inr (0, [], PosInf) \<and>
      (\<forall>x \<in> set (results (init '''')). snd (snd x) = PosInf)" using e0 by (rule mp)
  then have "break_caesar (init '''') = Inr (0, [], PosInf)" by (rule conjunct1)
  with order have "map fst (results (init ''LZA'')) = [0..25] \<and>
     break_caesar (init '''') = Inr (0, '''', PosInf)" by (rule conjI)
  with first show ?thesis by (rule conjI)
qed

section \<open>Determinism of the Caesar search\<close>

lemma break_caesar_returns: "\<exists>triple. break_caesar self = Inr triple"
proof -
  from py_min_map_first_minimal [OF shifts_facts(1-3),
    of "\<lambda>x::int \<times> string \<times> score. snd (snd x)"
       "\<lambda>shift::int. (shift, caesar_decrypt (encrypted self) shift,
                    combined_score (caesar_decrypt (encrypted self) shift))"]
  obtain v where "py_min (\<lambda>x::int \<times> string \<times> score. snd (snd x))
      (map (\<lambda>shift::int. (shift, caesar_decrypt (encrypted self) shift,
                    combined_score (caesar_decrypt (encrypted self) shift))) [0..25]) =
      Inr (v, caesar_decrypt (encrypted self) v, combined_score (caesar_decrypt (encrypted self) v))"
    by (elim exE conjE)
  then have "break_caesar self =
      Inr (v, caesar_decrypt (encrypted self) v, combined_score (caesar_decrypt (encrypted self) v))"
    unfolding break_caesar_def results_map .
  then show ?thesis by (rule exI)
qed

text \<open>
  C9. \<open>break_caesar\<close> reads nothing but the stored ciphertext \<open>encrypted\<close> and
  the constant language tables, and it changes no state: two calls on analyzers that hold
  the same ciphertext return the same triple, and a triple is always returned.
\<close>

theorem break_caesar_deterministic:
  assumes "encrypted a = encrypted b"
  shows "break_caesar a = break_caesar b \<and> (\<exists>triple. break_caesar a = Inr triple)"
proof -
  have "results a = results b" unfolding results_def assms by (rule refl)
  then have "break_caesar a = break_caesar b" unfolding break_caesar_def by (rule arg_cong)
  then show ?thesis using break_caesar_returns by (rule conjI)
qed

theorem break_caesar_deterministic_witness:
  "break_caesar (init ''LZA b'') = break_caesar (init ''lza B'') \<and>
   (\<exists>triple. break_caesar (init ''LZA b'') = Inr triple)"
proof -
  have "encrypted (init ''LZA b'') = encrypted (init ''lza B'')" by code_simp
  then show ?thesis by (rule break_caesar_deterministic)
qed

section \<open>Counting letters\<close>

lemma counter_add_keys:
  "map fst (counter_add c kvs) =
     (if c \<in> set (map fst kvs) then map fst kvs else map fst kvs @ [c])"
proof (induction kvs)
  case Nil
  show ?case by simp
next
  case (Cons kv kvs)
  obtain k n where kv: "kv = (k, n)" by (cases kv)
  show ?case
  proof (cases "k = c")
    case True
    then show ?thesis by (simp add: kv)
  next
    case False
    with Cons show ?thesis by (simp add: kv)
  qed
qed

lemma counter_add_map_of:
  "map_of (counter_add c kvs) =
     (map_of kvs)(c \<mapsto> (case map_of kvs c of None \<Rightarrow> 1 | Some n \<Rightarrow> n + 1))"
  by (induction kvs) (auto simp: fun_eq_iff)

lemma counter_fold:
  assumes "distinct (map fst acc)"
  shows "distinct (map fst (foldl (\<lambda>acc c. counter_add c acc) acc xs)) \<and>
         set (map fst (foldl (\<lambda>acc c. counter_add c acc) acc xs)) = set (map fst acc) \<union> set xs \<and>
         (\<forall>c. map_of (foldl (\<lambda>acc c. counter_add c acc) acc xs) c =
            (case map_of acc c of
               None \<Rightarrow> if c \<in> set xs then Some (count_list xs c) else None
             | Some n \<Rightarrow> Some (n + count_list xs c)))"
  using assms
proof (induction xs arbitrary: acc)
  case Nil
  then show ?case by (auto split: option.splits)
next
  case (Cons x xs)
  have d: "distinct (map fst (counter_add x acc))"
    using Cons.prems by (simp add: counter_add_keys)
  have k: "set (map fst (counter_add x acc)) = insert x (set (map fst acc))"
    by (auto simp: counter_add_keys)
  note ih = Cons.IH [OF d]
  have m: "map_of (foldl (\<lambda>acc c. counter_add c acc) (counter_add x acc) xs) c =
            (case map_of acc c of
               None \<Rightarrow> if c \<in> set (x # xs) then Some (count_list (x # xs) c) else None
             | Some n \<Rightarrow> Some (n + count_list (x # xs) c))" for c
  proof -
    from ih have "map_of (foldl (\<lambda>acc c. counter_add c acc) (counter_add x acc) xs) c =
            (case map_of (counter_add x acc) c of
               None \<Rightarrow> if c \<in> set xs then Some (count_list xs c) else None
             | Some n \<Rightarrow> Some (n + count_list xs c))" by blast
    then show ?thesis
      by (simp add: counter_add_map_of split: option.splits)
  qed
  from ih k m show ?case by (simp only: foldl_Cons) auto
qed

lemma Counter_distinct: "distinct (map fst (Counter xs))"
  using counter_fold [of "[]" xs] by (simp add: Counter_def)

lemma Counter_keys: "set (map fst (Counter xs)) = set xs"
  using counter_fold [of "[]" xs] by (simp add: Counter_def)

lemma Counter_map_of:
  "map_of (Counter xs) c = (if c \<in> set xs then Some (count_list xs c) else None)"
  using counter_fold [of "[]" xs] by (simp add: Counter_def)

lemma Counter_items: "(c, n) \<in> set (Counter xs) \<longleftrightarrow> c \<in> set xs \<and> n = count_list xs c"
proof -
  have "(c, n) \<in> set (Counter xs) \<longleftrightarrow> map_of (Counter xs) c = Some n"
    using Counter_distinct [of xs] by simp
  then show ?thesis by (auto simp: Counter_map_of)
qed

lemma Counter_length: "length (Counter xs) = card (set xs)"
proof -
  have "length (Counter xs) = length (map fst (Counter xs))" by simp
  also have "\<dots> = card (set (map fst (Counter xs)))"
    using Counter_distinct [of xs] by (rule distinct_card [symmetric])
  finally show ?thesis by (simp only: Counter_keys)
qed

section \<open>The frequency-rank key\<close>

lemma mset_sorted_reverse: "mset (sorted_reverse key xs) = mset xs"
  by (simp add: sorted_reverse_def)

lemma length_sorted_reverse: "length (sorted_reverse key xs) = length xs"
  by (simp add: sorted_reverse_def)

lemma set_sorted_reverse: "set (sorted_reverse key xs) = set xs"
  by (simp add: sorted_reverse_def)

lemma sorted_reverse_descending: "sorted (rev (map key (sorted_reverse key xs)))"
  by (simp add: sorted_reverse_def rev_map)

lemma distinct_keys_sorted_reverse:
  "distinct (map f (sorted_reverse key xs)) = distinct (map f xs)"
proof -
  have "mset (map f (sorted_reverse key xs)) = mset (map f xs)"
    by (simp add: mset_sorted_reverse)
  then show ?thesis by (rule mset_eq_imp_distinct_iff)
qed

lemma sorted_encrypted_distinct: "distinct (map fst (sorted_encrypted self))"
  by (simp add: sorted_encrypted_def distinct_keys_sorted_reverse Counter_distinct)

lemma sorted_encrypted_length: "length (sorted_encrypted self) = card (set (clean_text self))"
  by (simp add: sorted_encrypted_def length_sorted_reverse Counter_length)

lemma sorted_encrypted_items:
  "(c, n) \<in> set (sorted_encrypted self) \<longleftrightarrow>
     c \<in> set (clean_text self) \<and> n = count_list (clean_text self) c"
  by (simp add: sorted_encrypted_def set_sorted_reverse Counter_items)

lemma sorted_french_order: "map fst sorted_french = ''eastinrulodcpmbvfghqjxyzkw''"
  by code_simp

lemma length_sorted_french: "length sorted_french = 26"
proof -
  have "length (map fst sorted_french) = 26" by (simp only: sorted_french_order) simp
  then show ?thesis by simp
qed

lemma build_key_other:
  "k \<notin> (\<lambda>p. [fst (fst p)]) ` set ps \<Longrightarrow> build_key m ps k = m k"
proof (induction ps arbitrary: m)
  case Nil
  show ?case by simp
next
  case (Cons p ps)
  obtain e n f q where p: "p = ((e, n), (f, q))" by (cases p) auto
  have step: "build_key m (p # ps) = build_key (m([e] \<mapsto> [f])) ps" by (simp add: p)
  from Cons.prems have ne: "k \<noteq> [e]" and "k \<notin> (\<lambda>p. [fst (fst p)]) ` set ps"
    by (auto simp: p)
  then have "build_key (m([e] \<mapsto> [f])) ps k = (m([e] \<mapsto> [f])) k" by (intro Cons.IH)
  also have "\<dots> = m k" using ne by simp
  finally show ?case unfolding step .
qed

lemma build_key_nth:
  assumes "distinct (map (\<lambda>p. fst (fst p)) ps)" and "i < length ps"
  shows "build_key m ps [fst (fst (ps ! i))] = Some [fst (snd (ps ! i))]"
  using assms
proof (induction ps arbitrary: m i)
  case Nil
  then show ?case by simp
next
  case (Cons p ps)
  obtain e n f q where p: "p = ((e, n), (f, q))" by (cases p) auto
  have step: "build_key m (p # ps) = build_key (m([e] \<mapsto> [f])) ps" by (simp add: p)
  show ?case
  proof (cases i)
    case 0
    from Cons.prems(1) have "[e] \<notin> (\<lambda>p. [fst (fst p)]) ` set ps" by (auto simp: p)
    then have "build_key (m([e] \<mapsto> [f])) ps [e] = (m([e] \<mapsto> [f])) [e]" by (rule build_key_other)
    also have "\<dots> = Some [f]" by simp
    finally have "build_key m (p # ps) [e] = Some [f]" unfolding step .
    then show ?thesis by (simp add: 0 p)
  next
    case (Suc j)
    with Cons.prems have "distinct (map (\<lambda>p. fst (fst p)) ps)" "j < length ps" by simp_all
    then have "build_key (m([e] \<mapsto> [f])) ps [fst (fst (ps ! j))] = Some [fst (snd (ps ! j))]"
      by (rule Cons.IH)
    then have "build_key m (p # ps) [fst (fst (ps ! j))] = Some [fst (snd (ps ! j))]"
      unfolding step .
    then show ?thesis by (simp add: Suc)
  qed
qed

lemma build_key_dom: "dom (build_key m ps) = dom m \<union> (\<lambda>p. [fst (fst p)]) ` set ps"
proof (induction ps arbitrary: m)
  case Nil
  show ?case by simp
next
  case (Cons p ps)
  obtain e n f q where p: "p = ((e, n), (f, q))" by (cases p) auto
  have step: "build_key m (p # ps) = build_key (m([e] \<mapsto> [f])) ps" by (simp add: p)
  have "dom (build_key (m([e] \<mapsto> [f])) ps) =
          dom (m([e] \<mapsto> [f])) \<union> (\<lambda>p. [fst (fst p)]) ` set ps" by (rule Cons.IH)
  also have "\<dots> = dom m \<union> (\<lambda>p. [fst (fst p)]) ` set (p # ps)" by (auto simp: p)
  finally show ?case unfolding step .
qed

lemma build_key_values:
  assumes "\<And>k v. m k = Some v \<Longrightarrow> length v = 1"
  shows "build_key m ps k = Some v \<Longrightarrow> length v = 1"
  using assms
proof (induction ps arbitrary: m)
  case Nil
  then show ?case by simp
next
  case (Cons p ps)
  obtain e n f q where p: "p = ((e, n), (f, q))" by (cases p) auto
  have "\<And>k v. (m([e] \<mapsto> [f])) k = Some v \<Longrightarrow> length v = 1"
    using Cons.prems(2) by (auto split: if_splits)
  moreover have step: "build_key m (p # ps) = build_key (m([e] \<mapsto> [f])) ps" by (simp add: p)
  from Cons.prems(1) have "build_key (m([e] \<mapsto> [f])) ps k = Some v" unfolding step .
  ultimately show ?case using Cons.IH by blast
qed

lemma monoalpha_key_values: "monoalpha_key self k = Some v \<Longrightarrow> length v = 1"
proof -
  have "\<And>k v. (Map.empty :: subst_key) k = Some v \<Longrightarrow> length v = 1" by simp
  then show "monoalpha_key self k = Some v \<Longrightarrow> length v = 1"
    unfolding monoalpha_key_def by (rule build_key_values)
qed

lemma zip_keys_distinct:
  "distinct (map (\<lambda>p. fst (fst p)) (zip (sorted_encrypted self) sorted_french))"
proof -
  have "map (\<lambda>p. fst (fst p)) (zip (sorted_encrypted self) sorted_french) =
        map fst (map fst (zip (sorted_encrypted self) sorted_french))" by simp
  also have "\<dots> = map fst (take (length sorted_french) (sorted_encrypted self))"
    by (simp only: map_fst_zip_take) (simp add: take_map [symmetric] min_def)
  also have "\<dots> = take (length sorted_french) (map fst (sorted_encrypted self))"
    by (simp add: take_map)
  finally show ?thesis using sorted_encrypted_distinct [of self] by (simp add: distinct_take)
qed

lemma length_pairs:
  "length (zip (sorted_encrypted self) sorted_french) = min (card (set (clean_text self))) 26"
  by (simp add: sorted_encrypted_length length_sorted_french)

lemma monoalpha_key_nth:
  assumes "i < length (sorted_encrypted self)" and "i < length sorted_french"
  shows "monoalpha_key self [fst (sorted_encrypted self ! i)] = Some [fst (sorted_french ! i)]"
proof -
  let ?ps = "zip (sorted_encrypted self) sorted_french"
  from assms have i: "i < length ?ps" by simp
  with zip_keys_distinct have "build_key Map.empty ?ps [fst (fst (?ps ! i))] = Some [fst (snd (?ps ! i))]"
    by (rule build_key_nth)
  moreover from assms have "?ps ! i = (sorted_encrypted self ! i, sorted_french ! i)" by simp
  ultimately show ?thesis by (simp add: monoalpha_key_def)
qed

lemma monoalpha_key_card:
  "card (dom (monoalpha_key self)) = min (card (set (clean_text self))) 26"
proof -
  let ?ps = "zip (sorted_encrypted self) sorted_french"
  let ?ks = "map (\<lambda>p. fst (fst p)) ?ps"
  have "dom (monoalpha_key self) = (\<lambda>p. [fst (fst p)]) ` set ?ps"
    by (simp add: monoalpha_key_def build_key_dom)
  also have "\<dots> = (\<lambda>c. [c]) ` set ?ks" by (simp add: image_image)
  finally have "card (dom (monoalpha_key self)) = card ((\<lambda>c. [c]) ` set ?ks)" by simp
  also have "\<dots> = card (set ?ks)" by (rule card_image) (simp add: inj_on_def)
  also have "\<dots> = length ?ks" using zip_keys_distinct by (rule distinct_card)
  also have "\<dots> = min (card (set (clean_text self))) 26" by (simp only: length_map length_pairs)
  finally show ?thesis .
qed

lemma break_monoalpha_simple_fst:
  "fst (break_monoalpha_simple self) = monoalpha_decrypt (encrypted self) (monoalpha_key self)"
  by (simp add: break_monoalpha_simple_def Let_def)

lemma monoalpha_key_decrypt:
  "monoalpha_decrypt t (monoalpha_key self) =
     map (\<lambda>c. case monoalpha_key self [c] of None \<Rightarrow> c | Some v \<Rightarrow> hd v) t"
  by (rule monoalpha_decrypt_map) (rule monoalpha_key_values)

text \<open>
  C5. \<open>break_monoalpha_simple\<close> lists the distinct letters of the ciphertext with
  their counts in descending order of count, lists the reference letters in descending
  order of frequency, and maps the letter at each position of the first list to the letter
  at the same position of the second. The number of pairs is the number of distinct
  letters, capped at 26, so a ciphertext with fewer than 26 distinct letters yields
  exactly that many key entries. The decryption has the length of the ciphertext, and a
  character without a key entry is copied through unchanged.
\<close>

theorem break_monoalpha_simple_key:
  "(\<forall>c n. (c, n) \<in> set (sorted_encrypted self) \<longleftrightarrow>
       c \<in> set (clean_text self) \<and> n = count_list (clean_text self) c) \<and>
   distinct (map fst (sorted_encrypted self)) \<and>
   sorted (rev (map snd (sorted_encrypted self))) \<and>
   mset sorted_french = mset FR_FREQUENCIES \<and>
   sorted (rev (map snd sorted_french)) \<and>
   (\<forall>i. i < length (sorted_encrypted self) \<and> i < length sorted_french \<longrightarrow>
      monoalpha_key self [fst (sorted_encrypted self ! i)] = Some [fst (sorted_french ! i)]) \<and>
   length (zip (sorted_encrypted self) sorted_french) = min (card (set (clean_text self))) 26 \<and>
   card (dom (monoalpha_key self)) = min (card (set (clean_text self))) 26 \<and>
   (card (set (clean_text self)) < 26 \<longrightarrow>
      length (zip (sorted_encrypted self) sorted_french) = card (set (clean_text self)) \<and>
      card (dom (monoalpha_key self)) = card (set (clean_text self))) \<and>
   fst (break_monoalpha_simple self) = monoalpha_decrypt (encrypted self) (monoalpha_key self) \<and>
   length (fst (break_monoalpha_simple self)) = length (encrypted self) \<and>
   (\<forall>i. i < length (encrypted self) \<and> monoalpha_key self [encrypted self ! i] = None \<longrightarrow>
      fst (break_monoalpha_simple self) ! i = encrypted self ! i)"
proof -
  have a: "\<forall>c n. (c, n) \<in> set (sorted_encrypted self) \<longleftrightarrow>
       c \<in> set (clean_text self) \<and> n = count_list (clean_text self) c"
    by (simp only: sorted_encrypted_items) simp
  have b: "distinct (map fst (sorted_encrypted self))" by (rule sorted_encrypted_distinct)
  have c: "sorted (rev (map snd (sorted_encrypted self)))"
    unfolding sorted_encrypted_def by (rule sorted_reverse_descending)
  have d: "mset sorted_french = mset FR_FREQUENCIES"
    unfolding sorted_french_def by (rule mset_sorted_reverse)
  have e: "sorted (rev (map snd sorted_french))"
    unfolding sorted_french_def by (rule sorted_reverse_descending)
  have f: "\<forall>i. i < length (sorted_encrypted self) \<and> i < length sorted_french \<longrightarrow>
      monoalpha_key self [fst (sorted_encrypted self ! i)] = Some [fst (sorted_french ! i)]"
    using monoalpha_key_nth by blast
  note g = length_pairs [of self]
  note h = monoalpha_key_card [of self]
  have i: "card (set (clean_text self)) < 26 \<longrightarrow>
      length (zip (sorted_encrypted self) sorted_french) = card (set (clean_text self)) \<and>
      card (dom (monoalpha_key self)) = card (set (clean_text self))"
    unfolding g h by simp
  note j = break_monoalpha_simple_fst [of self]
  have k: "length (fst (break_monoalpha_simple self)) = length (encrypted self)"
    unfolding j monoalpha_key_decrypt by (rule length_map)
  have l: "\<forall>i. i < length (encrypted self) \<and> monoalpha_key self [encrypted self ! i] = None \<longrightarrow>
      fst (break_monoalpha_simple self) ! i = encrypted self ! i"
    unfolding j monoalpha_key_decrypt by simp
  from a b c d e f g h i j k l show ?thesis by (intro conjI)
qed

theorem break_monoalpha_simple_key_witness:
  "sorted_encrypted (init ''Bab, cb!'') = [(CHR ''b'', 3), (CHR ''a'', 1), (CHR ''c'', 1)] \<and>
   monoalpha_key (init ''Bab, cb!'') ''b'' = Some ''e'' \<and>
   monoalpha_key (init ''Bab, cb!'') ''c'' = Some ''s'' \<and>
   length (zip (sorted_encrypted (init ''Bab, cb!'')) sorted_french) = 3 \<and>
   card (dom (monoalpha_key (init ''Bab, cb!''))) = 3 \<and>
   fst (break_monoalpha_simple (init ''Bab, cb!'')) = ''eae, se!'' \<and>
   fst (break_monoalpha_simple (init ''Bab, cb!'')) ! 3 = CHR '',''"
proof -
  let ?a = "init ''Bab, cb!''"
  have se: "sorted_encrypted ?a = [(CHR ''b'', 3), (CHR ''a'', 1), (CHR ''c'', 1)]"
    by code_simp
  have sf0: "fst (sorted_french ! 0) = CHR ''e''" "fst (sorted_french ! 2) = CHR ''s''"
    by code_simp+
  have len: "(0::nat) < length (sorted_encrypted ?a) \<and> (0::nat) < length sorted_french"
       "(2::nat) < length (sorted_encrypted ?a) \<and> (2::nat) < length sorted_french"
    by (simp_all add: se length_sorted_french)
  have cnt: "card (set (clean_text ?a)) = 3" by code_simp
  have enc: "encrypted ?a = ''bab, cb!''" by code_simp
  have none: "(3::nat) < length (encrypted ?a) \<and> monoalpha_key ?a [encrypted ?a ! 3] = None"
    by code_simp
  have dec: "monoalpha_decrypt (encrypted ?a) (monoalpha_key ?a) = ''eae, se!''"
    by code_simp
  note th = break_monoalpha_simple_key [of ?a]
  from th have f: "\<forall>i. i < length (sorted_encrypted ?a) \<and> i < length sorted_french \<longrightarrow>
      monoalpha_key ?a [fst (sorted_encrypted ?a ! i)] = Some [fst (sorted_french ! i)]"
    by (elim conjE)
  from f len(1) have "monoalpha_key ?a [fst (sorted_encrypted ?a ! 0)] = Some [fst (sorted_french ! 0)]"
    by blast
  then have k0: "monoalpha_key ?a ''b'' = Some ''e''" unfolding se sf0 by simp
  from f len(2) have "monoalpha_key ?a [fst (sorted_encrypted ?a ! 2)] = Some [fst (sorted_french ! 2)]"
    by blast
  then have k2: "monoalpha_key ?a ''c'' = Some ''s''" unfolding se sf0 by simp
  from th have "length (zip (sorted_encrypted ?a) sorted_french) = min (card (set (clean_text ?a))) 26"
    by (elim conjE)
  then have n: "length (zip (sorted_encrypted ?a) sorted_french) = 3" unfolding cnt by simp
  from th have "card (dom (monoalpha_key ?a)) = min (card (set (clean_text ?a))) 26"
    by (elim conjE)
  then have m: "card (dom (monoalpha_key ?a)) = 3" unfolding cnt by simp
  from th have "fst (break_monoalpha_simple ?a) = monoalpha_decrypt (encrypted ?a) (monoalpha_key ?a)"
    by (elim conjE)
  then have d: "fst (break_monoalpha_simple ?a) = ''eae, se!''" unfolding dec .
  from th have "\<forall>i. i < length (encrypted ?a) \<and> monoalpha_key ?a [encrypted ?a ! i] = None \<longrightarrow>
      fst (break_monoalpha_simple ?a) ! i = encrypted ?a ! i"
    by (elim conjE)
  from this none have "fst (break_monoalpha_simple ?a) ! 3 = encrypted ?a ! 3"
    by blast
  then have p: "fst (break_monoalpha_simple ?a) ! 3 = CHR '',''" unfolding enc by simp
  from se k0 k2 n m d p show ?thesis by (intro conjI)
qed

end
